theory Spec2Isabelle
  imports Complex_Main
begin

section \<open>Python values and exceptions\<close>

text \<open>
  The exceptions that the modelled code can raise.  A computation that may raise has
  the type \<open>py_error + 'a\<close>, with \<open>Inl\<close> for the exception.
\<close>

datatype py_error = IndexError | ZeroDivisionError | ValueError

text \<open>
  Reading \<open>xs[i]\<close>.  An index from \<open>0\<close> to \<open>len(xs) - 1\<close> reads from the front, one
  from \<open>-len(xs)\<close> to \<open>-1\<close> reads from the back, and every other index raises
  \<open>IndexError\<close>.
\<close>

definition py_index :: "'a list \<Rightarrow> int \<Rightarrow> py_error + 'a" where
  "py_index xs i =
     (if 0 \<le> i \<and> i < int (length xs) then Inr (xs ! nat i)
      else if - int (length xs) \<le> i \<and> i < 0 then Inr (xs ! nat (int (length xs) + i))
      else Inl IndexError)"

text \<open>The comparison \<open>src[i] == tar[j]\<close>, which reads both strings.\<close>

definition py_eq_at :: "'a list \<Rightarrow> int \<Rightarrow> 'a list \<Rightarrow> int \<Rightarrow> py_error + bool" where
  "py_eq_at src i tar j =
     (case py_index src i of
        Inl e \<Rightarrow> Inl e
      | Inr x \<Rightarrow> (case py_index tar j of Inl e \<Rightarrow> Inl e | Inr y \<Rightarrow> Inr (x = y)))"

text \<open>
  Numbers of the formula layer.  Cardinalities and scores are Python \<open>int\<close>s and
  \<open>float\<close>s, modelled as real numbers (rounding is not modelled).  A power with a negative
  base and the exponent \<open>0.5\<close> is a \<open>complex\<close> in Python 3, so a score is a float or a
  complex number.
\<close>

datatype py_num = PyFloat real | PyComplex complex

text \<open>True division \<open>x / y\<close>: a zero divisor raises, for \<open>int\<close> and for \<open>float\<close>.\<close>

definition py_truediv :: "real \<Rightarrow> real \<Rightarrow> py_error + real" where
  "py_truediv x y = (if y = 0 then Inl ZeroDivisionError else Inr (x / y))"

text \<open>\<open>x ** 0.5\<close>: the square root, the principal complex root for a negative \<open>x\<close>.\<close>

definition py_pow_half :: "real \<Rightarrow> py_num" where
  "py_pow_half x = (if 0 \<le> x then PyFloat (sqrt x) else PyComplex (Complex 0 (sqrt (- x))))"

text \<open>\<open>x / y\<close> for a real \<open>x\<close> and a float or complex \<open>y\<close>.\<close>

definition py_div_num :: "real \<Rightarrow> py_num \<Rightarrow> py_error + py_num" where
  "py_div_num x y =
     (case y of
        PyFloat r \<Rightarrow> if r = 0 then Inl ZeroDivisionError else Inr (PyFloat (x / r))
      | PyComplex z \<Rightarrow>
          if z = 0 then Inl ZeroDivisionError else Inr (PyComplex (complex_of_real x / z)))"

text \<open>
  \<open>math.log(x, base)\<close>, which is \<open>log(x) / log(base)\<close>: a domain error outside the
  positive numbers, a division by zero for the base 1.
\<close>

definition py_log :: "real \<Rightarrow> real \<Rightarrow> py_error + real" where
  "py_log x base =
     (if x \<le> 0 \<or> base \<le> 0 then Inl ValueError
      else if ln base = 0 then Inl ZeroDivisionError
      else Inr (ln x / ln base))"

section \<open>Sift4Extended.dist\_abs\<close>

text \<open>
  An entry of \<open>offset_arr\<close>: the dictionary
  \<open>{'src_cur': ..., 'tar_cur': ..., 'trans': ...}\<close>.
\<close>

record ofs =
  ofs_src_cur :: int
  ofs_tar_cur :: int
  ofs_trans :: bool

text \<open>The local variables of \<open>dist_abs\<close> that live across iterations of the scan loop.\<close>

record scan_state =
  src_cur :: int
  tar_cur :: int
  lcss :: int
  local_cs :: int
  trans :: int
  offset_arr :: "ofs list"

text \<open>
  The inner \<open>while i < len(offset_arr)\<close> loop of a matching step, from index \<open>i\<close>.
  It returns the history, \<open>is_trans\<close> and the transposition counter as they are when
  the loop is left (by \<open>break\<close> or by its condition).  \<open>del offset_arr[i]\<close> removes
  the entry at \<open>i\<close>; setting \<open>ofs['trans']\<close> updates the entry in place.
\<close>

function offset_loop ::
  "int \<Rightarrow> int \<Rightarrow> nat \<Rightarrow> ofs list \<Rightarrow> int \<Rightarrow> ofs list \<times> bool \<times> int" where
  "offset_loop sc tc i arr tr =
     (if i < length arr then
        (let ofs = arr ! i in
         if sc \<le> ofs_src_cur ofs \<or> tc \<le> ofs_tar_cur ofs then
           (let is_trans = (\<bar>tc - sc\<bar> \<ge> \<bar>ofs_tar_cur ofs - ofs_src_cur ofs\<bar>) in
            if is_trans then (arr, is_trans, tr + 1)
            else if \<not> ofs_trans ofs then
              (arr[i := ofs\<lparr>ofs_trans := True\<rparr>], is_trans, tr + 1)
            else (arr, is_trans, tr))
         else if sc > ofs_tar_cur ofs \<and> tc > ofs_src_cur ofs then
           offset_loop sc tc i (take i arr @ drop (Suc i) arr) tr
         else offset_loop sc tc (Suc i) arr tr)
      else (arr, False, tr))"
  by pat_completeness auto
termination
  by (relation "measure (\<lambda>(sc, tc, i, arr, tr). length arr - i)") auto

declare offset_loop.simps [simp del]

text \<open>The matching branch: \<open>src[src_cur] == tar[tar_cur]\<close>.\<close>

definition match_step :: "scan_state \<Rightarrow> scan_state" where
  "match_step st =
     (case offset_loop (src_cur st) (tar_cur st) 0 (offset_arr st) (trans st) of
        (arr, is_trans, tr) \<Rightarrow>
          st\<lparr>local_cs := local_cs st + 1,
             trans := tr,
             offset_arr := arr @ [\<lparr>ofs_src_cur = src_cur st, ofs_tar_cur = tar_cur st,
                                   ofs_trans = is_trans\<rparr>]\<rparr>)"

text \<open>
  The look-ahead \<open>for i in range(max_offset)\<close> of the mismatch branch, over the values
  of \<open>i\<close> that remain.  It returns the two cursors as they are when the loop is left.
\<close>

fun look_ahead ::
  "'a list \<Rightarrow> 'a list \<Rightarrow> int \<Rightarrow> int \<Rightarrow> int list \<Rightarrow> py_error + (int \<times> int)" where
  "look_ahead src tar sc tc [] = Inr (sc, tc)"
| "look_ahead src tar sc tc (i # is) =
     (if \<not> (sc + i < int (length src) \<or> tc + i < int (length tar)) then Inr (sc, tc)
      else
        (case (if sc + i < int (length src) then py_eq_at src (sc + i) tar tc
               else Inr False) of
           Inl e \<Rightarrow> Inl e
         | Inr True \<Rightarrow> Inr (sc + (i - 1), tc - 1)
         | Inr False \<Rightarrow>
             (case (if tc + i < int (length tar) then py_eq_at src sc tar (tc + i)
                    else Inr False) of
                Inl e \<Rightarrow> Inl e
              | Inr True \<Rightarrow> Inr (sc - 1, tc + (i - 1))
              | Inr False \<Rightarrow> look_ahead src tar sc tc is)))"

text \<open>The mismatch branch.\<close>

definition mismatch_step ::
  "int \<Rightarrow> 'a list \<Rightarrow> 'a list \<Rightarrow> scan_state \<Rightarrow> py_error + scan_state" where
  "mismatch_step max_offset src tar st =
     (let st1 = st\<lparr>lcss := lcss st + local_cs st, local_cs := 0\<rparr>;
          st2 = (if src_cur st1 \<noteq> tar_cur st1
                 then st1\<lparr>src_cur := min (src_cur st1) (tar_cur st1),
                         tar_cur := min (src_cur st1) (tar_cur st1)\<rparr>
                 else st1)
      in case look_ahead src tar (src_cur st2) (tar_cur st2) [0 .. max_offset - 1] of
           Inl e \<Rightarrow> Inl e
         | Inr (sc, tc) \<Rightarrow> Inr (st2\<lparr>src_cur := sc, tar_cur := tc\<rparr>))"

text \<open>
  What an iteration of the scan loop ends with: an early \<open>return\<close> of a value, or the
  state for the next iteration.
\<close>

datatype outcome = Return int | Continue scan_state

text \<open>
  The end of an iteration, after both cursors were advanced: the early exit on
  \<open>max_distance\<close>, and the flush and realignment when a cursor has reached the end of
  its string.  \<open>round\<close> of an integer is that integer.
\<close>

definition end_of_step :: "int \<Rightarrow> 'a list \<Rightarrow> 'a list \<Rightarrow> scan_state \<Rightarrow> outcome" where
  "end_of_step max_distance src tar st =
     (if max_distance \<noteq> 0 \<and>
         max (src_cur st) (tar_cur st) - lcss st + trans st \<ge> max_distance
      then Return (max (src_cur st) (tar_cur st) - lcss st + trans st)
      else if src_cur st \<ge> int (length src) \<or> tar_cur st \<ge> int (length tar) then
        Continue (st\<lparr>lcss := lcss st + local_cs st, local_cs := 0,
                     src_cur := min (src_cur st) (tar_cur st),
                     tar_cur := min (src_cur st) (tar_cur st)\<rparr>)
      else Continue st)"

text \<open>
  The body of an iteration up to and including \<open>src_cur += 1\<close> and
  \<open>tar_cur += 1\<close>: the matching or the mismatch branch, then both cursors advance.
\<close>

definition step_body ::
  "int \<Rightarrow> 'a list \<Rightarrow> 'a list \<Rightarrow> scan_state \<Rightarrow> py_error + scan_state" where
  "step_body max_offset src tar st =
     (case py_eq_at src (src_cur st) tar (tar_cur st) of
        Inl e \<Rightarrow> Inl e
      | Inr eq \<Rightarrow>
          (case (if eq then Inr (match_step st) else mismatch_step max_offset src tar st) of
             Inl e \<Rightarrow> Inl e
           | Inr st1 \<Rightarrow> Inr (st1\<lparr>src_cur := src_cur st1 + 1, tar_cur := tar_cur st1 + 1\<rparr>)))"

text \<open>One iteration of the scan loop: the body, then the end of the iteration.\<close>

definition scan_step ::
  "int \<Rightarrow> int \<Rightarrow> 'a list \<Rightarrow> 'a list \<Rightarrow> scan_state \<Rightarrow> py_error + outcome" where
  "scan_step max_offset max_distance src tar st =
     (case step_body max_offset src tar st of
        Inl e \<Rightarrow> Inl e
      | Inr st2 \<Rightarrow> Inr (end_of_step max_distance src tar st2))"

text \<open>
  What decreases in every iteration: twice the distance of the smaller cursor from the
  end of the shorter string, plus one when the characters under the cursors differ.
\<close>

definition scan_measure :: "'a list \<Rightarrow> 'a list \<Rightarrow> scan_state \<Rightarrow> nat" where
  "scan_measure src tar st =
     nat (2 * (min (int (length src)) (int (length tar)) - min (src_cur st) (tar_cur st))
          + (if py_eq_at src (src_cur st) tar (tar_cur st) = Inr True then 0 else 1))"

subsection \<open>Every iteration makes progress\<close>

text \<open>
  A look-ahead that was left by \<open>break\<close> on a hit has found equal characters at the
  position the cursors are moved to; otherwise the cursors are unchanged.
\<close>

lemma look_ahead_cases:
  "look_ahead src tar sc tc js = Inr (sc', tc') \<Longrightarrow> \<forall>i\<in>set js. 0 \<le> i \<Longrightarrow>
   (sc' = sc \<and> tc' = tc) \<or>
   (\<exists>i\<ge>0. sc' = sc + i - 1 \<and> tc' = tc - 1 \<and> sc + i < int (length src) \<and> py_eq_at src (sc + i) tar tc = Inr True) \<or>
   (\<exists>i\<ge>0. sc' = sc - 1 \<and> tc' = tc + i - 1 \<and> tc + i < int (length tar) \<and> py_eq_at src sc tar (tc + i) = Inr True)"
proof (induction js)
  case Nil
  then show ?case by simp
next
  case (Cons j js)
  then show ?case
    by (auto split: if_splits sum.splits bool.splits)
qed

lemma end_of_step_inside:
  "src_cur st < int (length src) \<Longrightarrow> tar_cur st < int (length tar) \<Longrightarrow>
   end_of_step md src tar st = Continue st' \<Longrightarrow> st' = st"
  by (auto simp: end_of_step_def split: if_splits)

lemma end_of_step_min:
  "end_of_step md src tar st = Continue st' \<Longrightarrow>
   min (src_cur st') (tar_cur st') = min (src_cur st) (tar_cur st)"
  by (auto simp: end_of_step_def split: if_splits)

lemma match_step_cursors:
  "src_cur (match_step st) = src_cur st \<and> tar_cur (match_step st) = tar_cur st"
  by (simp add: match_step_def split: prod.splits)

lemma mismatch_step_cases:
  assumes "mismatch_step mo src tar st = Inr st1"
  shows "(src_cur st1 = min (src_cur st) (tar_cur st) \<and> tar_cur st1 = min (src_cur st) (tar_cur st)) \<or>
     (\<exists>i\<ge>0. src_cur st1 = min (src_cur st) (tar_cur st) + i - 1 \<and> tar_cur st1 = min (src_cur st) (tar_cur st) - 1 \<and>
        min (src_cur st) (tar_cur st) + i < int (length src) \<and>
        py_eq_at src (min (src_cur st) (tar_cur st) + i) tar (min (src_cur st) (tar_cur st)) = Inr True) \<or>
     (\<exists>i\<ge>0. src_cur st1 = min (src_cur st) (tar_cur st) - 1 \<and> tar_cur st1 = min (src_cur st) (tar_cur st) + i - 1 \<and>
        min (src_cur st) (tar_cur st) + i < int (length tar) \<and>
        py_eq_at src (min (src_cur st) (tar_cur st)) tar (min (src_cur st) (tar_cur st) + i) = Inr True)"
proof -
  let ?m = "min (src_cur st) (tar_cur st)"
  from assms obtain sc tc where la: "look_ahead src tar ?m ?m [0 .. mo - 1] = Inr (sc, tc)"
    and st1: "src_cur st1 = sc" "tar_cur st1 = tc"
    by (auto simp: mismatch_step_def Let_def split: sum.splits if_splits)
  have "\<forall>i\<in>set [0 .. mo - 1]. 0 \<le> i" by simp
  from look_ahead_cases [OF la this] st1 show ?thesis by simp
qed

lemma scan_step_decreases:
  assumes inside: "src_cur st < int (length src)" "tar_cur st < int (length tar)"
    and step: "scan_step mo md src tar st = Inr (Continue st')"
  shows "scan_measure src tar st' < scan_measure src tar st"
proof -
  let ?m = "min (src_cur st) (tar_cur st)"
  let ?L = "min (int (length src)) (int (length tar))"
  from inside have mL: "?m < ?L" by linarith
  from step obtain eq st1 where eq: "py_eq_at src (src_cur st) tar (tar_cur st) = Inr eq"
    and st1: "(if eq then Inr (match_step st) else mismatch_step mo src tar st) = Inr st1"
    and fin: "end_of_step md src tar (st1\<lparr>src_cur := src_cur st1 + 1, tar_cur := tar_cur st1 + 1\<rparr>) = Continue st'"
    by (auto simp: scan_step_def step_body_def split: sum.splits)
  let ?st2 = "st1\<lparr>src_cur := src_cur st1 + 1, tar_cur := tar_cur st1 + 1\<rparr>"
  from end_of_step_min [OF fin]
  have min': "min (src_cur st') (tar_cur st') = min (src_cur st1 + 1) (tar_cur st1 + 1)" by simp
  show ?thesis
  proof (cases eq)
    case True
    with st1 have "st1 = match_step st" by simp
    with match_step_cursors [of st] min' have "min (src_cur st') (tar_cur st') = ?m + 1" by simp
    with mL show ?thesis by (simp add: scan_measure_def)
  next
    case False
    with st1 have mm: "mismatch_step mo src tar st = Inr st1" by simp
    from False eq have flag: "py_eq_at src (src_cur st) tar (tar_cur st) \<noteq> Inr True" by simp
    from mismatch_step_cases [OF mm] consider
      (nohit) "src_cur st1 = ?m" "tar_cur st1 = ?m"
      | (src) i where "0 \<le> i" "src_cur st1 = ?m + i - 1" "tar_cur st1 = ?m - 1"
          "?m + i < int (length src)" "py_eq_at src (?m + i) tar ?m = Inr True"
      | (tar) i where "0 \<le> i" "src_cur st1 = ?m - 1" "tar_cur st1 = ?m + i - 1"
          "?m + i < int (length tar)" "py_eq_at src ?m tar (?m + i) = Inr True"
      by blast
    then show ?thesis
    proof cases
      case nohit
      with min' have "min (src_cur st') (tar_cur st') = ?m + 1" by simp
      with mL flag show ?thesis by (simp add: scan_measure_def)
    next
      case src
      with mL have "src_cur ?st2 < int (length src)" "tar_cur ?st2 < int (length tar)" by simp_all
      from end_of_step_inside [OF this fin] have "st' = ?st2" .
      with src have "src_cur st' = ?m + i" "tar_cur st' = ?m" by simp_all
      with src mL flag show ?thesis by (simp add: scan_measure_def)
    next
      case tar
      with mL have "src_cur ?st2 < int (length src)" "tar_cur ?st2 < int (length tar)" by simp_all
      from end_of_step_inside [OF this fin] have "st' = ?st2" .
      with tar have "src_cur st' = ?m" "tar_cur st' = ?m + i" by simp_all
      with tar mL flag show ?thesis by (simp add: scan_measure_def)
    qed
  qed
qed

subsection \<open>The scan loop and the distance\<close>

text \<open>
  The \<open>while (src_cur < src_len) and (tar_cur < tar_len)\<close> loop with what follows it:
  the last flush of \<open>local_cs\<close> and the returned value.
\<close>

function sift4_loop ::
  "int \<Rightarrow> int \<Rightarrow> 'a list \<Rightarrow> 'a list \<Rightarrow> scan_state \<Rightarrow> py_error + int" where
  "sift4_loop max_offset max_distance src tar st =
     (if src_cur st < int (length src) \<and> tar_cur st < int (length tar) then
        (case scan_step max_offset max_distance src tar st of
           Inl e \<Rightarrow> Inl e
         | Inr (Return v) \<Rightarrow> Inr v
         | Inr (Continue st') \<Rightarrow> sift4_loop max_offset max_distance src tar st')
      else Inr (max (int (length src)) (int (length tar)) - (lcss st + local_cs st) + trans st))"
  by pat_completeness auto
termination
  by (relation "measure (\<lambda>(mo, md, src, tar, st). scan_measure src tar st)")
     (auto intro: scan_step_decreases)

declare sift4_loop.simps [simp del]

text \<open>
  \<open>Sift4Extended(max_offset, max_distance).dist_abs(src, tar)\<close>.  The two early returns
  come before the loop.
\<close>

definition init_state :: scan_state where
  "init_state =
     \<lparr>src_cur = 0, tar_cur = 0, lcss = 0, local_cs = 0, trans = 0, offset_arr = []\<rparr>"

definition dist_abs :: "int \<Rightarrow> int \<Rightarrow> 'a list \<Rightarrow> 'a list \<Rightarrow> py_error + int" where
  "dist_abs max_offset max_distance src tar =
     (if src = [] then Inr (int (length tar))
      else if tar = [] then Inr (int (length src))
      else sift4_loop max_offset max_distance src tar init_state)"

text \<open>
  The state at the head of the loop after \<open>n\<close> complete iterations from \<open>st\<close>, if the
  loop runs that long: \<open>None\<close> when it is left, returns or raises before.
\<close>

fun after_steps ::
  "nat \<Rightarrow> int \<Rightarrow> int \<Rightarrow> 'a list \<Rightarrow> 'a list \<Rightarrow> scan_state \<Rightarrow> scan_state option" where
  "after_steps 0 max_offset max_distance src tar st = Some st"
| "after_steps (Suc n) max_offset max_distance src tar st =
     (if src_cur st < int (length src) \<and> tar_cur st < int (length tar) then
        (case scan_step max_offset max_distance src tar st of
           Inr (Continue st') \<Rightarrow> after_steps n max_offset max_distance src tar st'
         | _ \<Rightarrow> None)
      else None)"

subsection \<open>Predicates on states and history entries\<close>

text \<open>
  What holds at the head of every iteration: the cursors are within their strings and
  the common length found so far, \<open>lcss + local_cs\<close>, is at most the smaller cursor.
\<close>

definition scan_inv :: "'a list \<Rightarrow> 'a list \<Rightarrow> scan_state \<Rightarrow> bool" where
  "scan_inv src tar st \<longleftrightarrow>
     0 \<le> src_cur st \<and> src_cur st \<le> int (length src) \<and>
     0 \<le> tar_cur st \<and> tar_cur st \<le> int (length tar) \<and>
     0 \<le> lcss st \<and> 0 \<le> local_cs st \<and>
     lcss st + local_cs st \<le> min (src_cur st) (tar_cur st) \<and> 0 \<le> trans st"

text \<open>
  The provisional distance \<open>temporary_distance\<close> that the early exit compares with
  \<open>max_distance\<close>, as a function of the state after the cursors have advanced.
\<close>

definition temporary_distance :: "scan_state \<Rightarrow> int" where
  "temporary_distance st = max (src_cur st) (tar_cur st) - lcss st + trans st"

text \<open>
  The two tests that the history loop makes on an entry, for the new pair
  \<open>(src_cur, tar_cur)\<close>: the \<open>if\<close> (the entry overlaps the new pair) and the
  \<open>elif\<close> (the entry lies entirely below the new pair).
\<close>

definition overlapping :: "int \<Rightarrow> int \<Rightarrow> ofs \<Rightarrow> bool" where
  "overlapping sc tc e \<longleftrightarrow> sc \<le> ofs_src_cur e \<or> tc \<le> ofs_tar_cur e"

definition superseded :: "int \<Rightarrow> int \<Rightarrow> ofs \<Rightarrow> bool" where
  "superseded sc tc e \<longleftrightarrow> sc > ofs_tar_cur e \<and> tc > ofs_src_cur e"

section \<open>The formula layer\<close>

text \<open>
  The formula classes read cardinalities from their base class \<open>_TokenDistance\<close>, which
  is not among the sources.  Its answers for a pair of strings are a parameter of every
  formula here: \<open>engine src tar\<close> is what the accessors return after
  \<open>tokenize(src, tar)\<close>.
\<close>

record cards =
  intersection_card :: real
  src_only_card :: real
  tar_only_card :: real
  total_complement_card :: real
  src_card :: real
  tar_card :: real
  population_unique_card :: real

text \<open>\<open>Doolittle.sim\<close>.\<close>

definition Doolittle_sim :: "('a list \<Rightarrow> 'a list \<Rightarrow> cards) \<Rightarrow> 'a list \<Rightarrow> 'a list \<Rightarrow> py_error + real" where
  "Doolittle_sim engine src tar =
     (let k = engine src tar;
          a = intersection_card k; b = src_only_card k;
          c = tar_only_card k; d = total_complement_card k
      in py_truediv ((a * d - b * c)\<^sup>2) ((a + b) * (a + c) * (b + d) * (c + d)))"

text \<open>\<open>Dennis.sim_score\<close>.  The test for two empty strings comes before the engine is used.\<close>

definition Dennis_sim_score ::
  "('a list \<Rightarrow> 'a list \<Rightarrow> cards) \<Rightarrow> 'a list \<Rightarrow> 'a list \<Rightarrow> py_error + py_num" where
  "Dennis_sim_score engine src tar =
     (if src = [] \<and> tar = [] then Inr (PyFloat 0)
      else
        (let k = engine src tar; a = intersection_card k in
         case py_truediv (src_card k * tar_card k) (population_unique_card k) of
           Inl e \<Rightarrow> Inl e
         | Inr abacn \<Rightarrow>
             (let num = a - abacn in
              if num = 0 then Inr (PyFloat 0) else py_div_num num (py_pow_half abacn))))"

text \<open>
  Modelled from the spec: \<open>PearsonPhi.corr\<close>, the method of the base class of
  \<open>PearsonIII\<close>, is not among the sources.  This is the formula for \<open>\<phi>\<close> in the
  documentation of \<open>PearsonIII\<close>:
  \<open>ad - bc\<close> divided by the square root of \<open>(a + b)(a + c)(c + d)(b + d)\<close>, the
  product of the sizes of \<open>X\<close>, \<open>Y\<close> and their complements in \<open>N\<close>.
\<close>

definition PearsonPhi_corr :: "('a list \<Rightarrow> 'a list \<Rightarrow> cards) \<Rightarrow> 'a list \<Rightarrow> 'a list \<Rightarrow> py_error + real" where
  "PearsonPhi_corr engine src tar =
     (let k = engine src tar;
          a = intersection_card k; b = src_only_card k;
          c = tar_only_card k; d = total_complement_card k
      in py_truediv (a * d - b * c) (sqrt ((a + b) * (a + c) * (c + d) * (b + d))))"

text \<open>
  \<open>PearsonIII.corr\<close>.  \<open>super_corr\<close> is \<open>super().corr\<close>, the \<open>corr\<close> of
  \<open>PearsonPhi\<close>.
\<close>

definition PearsonIII_corr ::
  "('a list \<Rightarrow> 'a list \<Rightarrow> py_error + real) \<Rightarrow> ('a list \<Rightarrow> 'a list \<Rightarrow> cards) \<Rightarrow>
   'a list \<Rightarrow> 'a list \<Rightarrow> py_error + py_num" where
  "PearsonIII_corr super_corr engine src tar =
     (case super_corr src tar of
        Inl e \<Rightarrow> Inl e
      | Inr phi \<Rightarrow>
          (case py_truediv phi (population_unique_card (engine src tar) + phi) of
             Inl e \<Rightarrow> Inl e
           | Inr r \<Rightarrow> Inr (py_pow_half r)))"

text \<open>\<open>TullossS.sim\<close>.\<close>

definition TullossS_sim :: "('a list \<Rightarrow> 'a list \<Rightarrow> cards) \<Rightarrow> 'a list \<Rightarrow> 'a list \<Rightarrow> py_error + py_num" where
  "TullossS_sim engine src tar =
     (let k = engine src tar;
          a = intersection_card k; b = src_only_card k; c = tar_only_card k
      in case py_truediv (min b c) (a + 1) of
           Inl e \<Rightarrow> Inl e
         | Inr q \<Rightarrow>
             (case py_log (2 + q) 2 of
                Inl e \<Rightarrow> Inl e
              | Inr l \<Rightarrow> py_div_num 1 (py_pow_half l)))"

text \<open>
  An engine answer with the given \<open>a\<close>, \<open>b\<close>, \<open>c\<close>, \<open>d\<close> and the totals that
  follow from them, for evaluating the formulas at concrete cardinalities.
\<close>

definition fixed_cards :: "real \<Rightarrow> real \<Rightarrow> real \<Rightarrow> real \<Rightarrow> cards" where
  "fixed_cards a b c d =
     \<lparr>intersection_card = a, src_only_card = b, tar_only_card = c, total_complement_card = d,
      src_card = a + b, tar_card = a + c, population_unique_card = a + b + c + d\<rparr>"

section \<open>Properties of the Sift4 scan\<close>

subsection \<open>The scan never fails and its result is not negative\<close>

text \<open>
  Inside the loop both cursors are valid indices, so no read raises.  The common length
  found so far, \<open>lcss + local_cs\<close>, never exceeds the smaller cursor, and the cursors
  never pass the ends of their strings.
\<close>

lemma py_index_inside: "0 \<le> i \<Longrightarrow> i < int (length xs) \<Longrightarrow> py_index xs i = Inr (xs ! nat i)"
  by (simp add: py_index_def)

lemma py_eq_at_inside:
  "0 \<le> i \<Longrightarrow> i < int (length src) \<Longrightarrow> 0 \<le> j \<Longrightarrow> j < int (length tar) \<Longrightarrow>
   py_eq_at src i tar j = Inr (src ! nat i = tar ! nat j)"
  by (simp add: py_eq_at_def py_index_inside)

lemma look_ahead_no_error:
  "0 \<le> sc \<Longrightarrow> sc < int (length src) \<Longrightarrow> 0 \<le> tc \<Longrightarrow> tc < int (length tar) \<Longrightarrow>
   \<forall>i\<in>set js. 0 \<le> i \<Longrightarrow> \<exists>r. look_ahead src tar sc tc js = Inr r"
proof (induction js)
  case Nil
  then show ?case by simp
next
  case (Cons j js)
  then show ?case by (auto simp: py_eq_at_inside split: bool.splits)
qed

lemma offset_loop_trans_mono:
  "tr \<le> snd (snd (offset_loop sc tc i arr tr))"
proof (induction sc tc i arr tr rule: offset_loop.induct)
  case (1 sc tc i arr tr)
  show ?case
    using "1.IH" by (subst offset_loop.simps) (simp add: Let_def)
qed

lemma match_step_fields:
  "src_cur (match_step st) = src_cur st" "tar_cur (match_step st) = tar_cur st"
  "lcss (match_step st) = lcss st" "local_cs (match_step st) = local_cs st + 1"
  "trans st \<le> trans (match_step st)"
  using offset_loop_trans_mono [of "trans st" "src_cur st" "tar_cur st" 0 "offset_arr st"]
  by (auto simp: match_step_def split: prod.splits)

lemma end_of_step_inv:
  assumes "0 \<le> src_cur st" "src_cur st \<le> int (length src)"
    "0 \<le> tar_cur st" "tar_cur st \<le> int (length tar)"
    "0 \<le> lcss st" "0 \<le> local_cs st"
    "lcss st + local_cs st \<le> min (src_cur st) (tar_cur st)" "0 \<le> trans st"
  shows "(\<exists>v. end_of_step md src tar st = Return v \<and> 0 \<le> v) \<or>
         (\<exists>st'. end_of_step md src tar st = Continue st' \<and> scan_inv src tar st')"
  using assms by (auto simp: end_of_step_def scan_inv_def)

lemma scan_step_inv:
  assumes inv: "scan_inv src tar st"
    and inside: "src_cur st < int (length src)" "tar_cur st < int (length tar)"
  shows "(\<exists>v. scan_step mo md src tar st = Inr (Return v) \<and> 0 \<le> v) \<or>
         (\<exists>st'. scan_step mo md src tar st = Inr (Continue st') \<and> scan_inv src tar st')"
proof -
  let ?m = "min (src_cur st) (tar_cur st)"
  from inv have pos: "0 \<le> src_cur st" "0 \<le> tar_cur st" "0 \<le> lcss st" "0 \<le> local_cs st"
      "lcss st + local_cs st \<le> ?m" "0 \<le> trans st"
    by (simp_all add: scan_inv_def)
  from pos inside have eq: "py_eq_at src (src_cur st) tar (tar_cur st)
      = Inr (src ! nat (src_cur st) = tar ! nat (tar_cur st))"
    by (simp add: py_eq_at_inside)
  show ?thesis
  proof (cases "src ! nat (src_cur st) = tar ! nat (tar_cur st)")
    case True
    let ?st2 = "(match_step st)\<lparr>src_cur := src_cur (match_step st) + 1,
                                tar_cur := tar_cur (match_step st) + 1\<rparr>"
    from True eq have step: "scan_step mo md src tar st = Inr (end_of_step md src tar ?st2)"
      by (simp add: scan_step_def step_body_def)
    have "(\<exists>v. end_of_step md src tar ?st2 = Return v \<and> 0 \<le> v) \<or>
         (\<exists>st'. end_of_step md src tar ?st2 = Continue st' \<and> scan_inv src tar st')"
      using pos inside match_step_fields [of st]
      by (intro end_of_step_inv) simp_all
    with step show ?thesis by simp
  next
    case False
    have mpos: "0 \<le> ?m" "?m < int (length src)" "?m < int (length tar)"
      using pos inside by linarith+
    have "\<forall>i\<in>set [0 .. mo - 1]. 0 \<le> i" by simp
    from look_ahead_no_error [OF mpos(1) mpos(2) mpos(1) mpos(3) this]
    obtain sc tc where la: "look_ahead src tar ?m ?m [0 .. mo - 1] = Inr (sc, tc)"
      by (metis surj_pair)
    define st1 where "st1 = st\<lparr>lcss := lcss st + local_cs st, local_cs := 0,
        src_cur := sc, tar_cur := tc\<rparr>"
    from la have mm: "mismatch_step mo src tar st = Inr st1"
      by (auto simp: mismatch_step_def Let_def st1_def min_def)
    let ?st2 = "st1\<lparr>src_cur := src_cur st1 + 1, tar_cur := tar_cur st1 + 1\<rparr>"
    from False eq mm have step: "scan_step mo md src tar st = Inr (end_of_step md src tar ?st2)"
      by (simp add: scan_step_def step_body_def)
    from mismatch_step_cases [OF mm]
    have cur: "0 \<le> src_cur st1 + 1 \<and> src_cur st1 + 1 \<le> int (length src) \<and>
         0 \<le> tar_cur st1 + 1 \<and> tar_cur st1 + 1 \<le> int (length tar) \<and>
         ?m \<le> min (src_cur st1 + 1) (tar_cur st1 + 1)"
      using mpos by auto
    have "(\<exists>v. end_of_step md src tar ?st2 = Return v \<and> 0 \<le> v) \<or>
         (\<exists>st'. end_of_step md src tar ?st2 = Continue st' \<and> scan_inv src tar st')"
      using pos cur by (intro end_of_step_inv) (auto simp: st1_def)
    with step show ?thesis by simp
  qed
qed

lemma sift4_loop_total:
  "scan_inv src tar st \<Longrightarrow> \<exists>n. sift4_loop mo md src tar st = Inr n \<and> 0 \<le> n"
proof (induction mo md src tar st rule: sift4_loop.induct)
  case (1 mo md src tar st)
  show ?case
  proof (cases "src_cur st < int (length src) \<and> tar_cur st < int (length tar)")
    case True
    from scan_step_inv [OF "1.prems", of mo md] True consider
      (ret) v where "scan_step mo md src tar st = Inr (Return v)" "0 \<le> v"
      | (cont) st' where "scan_step mo md src tar st = Inr (Continue st')" "scan_inv src tar st'"
      by blast
    then show ?thesis
    proof cases
      case ret
      with True show ?thesis by (simp add: sift4_loop.simps [of mo md src tar st])
    next
      case cont
      from "1.IH" [OF True cont(1) refl cont(2)] cont(1) True
      show ?thesis by (simp add: sift4_loop.simps [of mo md src tar st])
    qed
  next
    case False
    with "1.prems" show ?thesis
      by (auto simp: sift4_loop.simps [of mo md src tar st] scan_inv_def)
  qed
qed

lemma scan_inv_init: "scan_inv src tar init_state"
  by (simp add: scan_inv_def init_state_def)

text \<open>
  Claim C3.  For all strings, every \<open>max_offset\<close> and every \<open>max_distance\<close>,
  \<open>dist_abs\<close> returns, raises nothing, and its result is a non-negative integer.  (That
  the loop ends is the termination proof of \<open>sift4_loop\<close>: by \<open>scan_step_decreases\<close>
  every iteration decreases \<open>scan_measure\<close>.)
\<close>

theorem dist_abs_total_nonneg: "\<exists>n. dist_abs mo md src tar = Inr n \<and> 0 \<le> n"
  using sift4_loop_total [OF scan_inv_init, where src = src and tar = tar and mo = mo and md = md]
  by (simp add: dist_abs_def)

subsection \<open>Empty inputs\<close>

text \<open>
  Claim C6.  With an empty source the result is the length of the target, with an empty
  target the length of the source; both are the early returns of \<open>dist_abs\<close>, which
  come before the scan loop.
\<close>

theorem dist_abs_empty:
  "dist_abs mo md [] t = Inr (int (length t)) \<and> dist_abs mo md s [] = Inr (int (length s))"
  by (simp add: dist_abs_def)

subsection \<open>The offset history in a matching step\<close>

text \<open>
  The history loop from index \<open>i\<close> leaves the entries before \<open>i\<close> alone, so it can be
  described by recursion on the history.  An entry that neither overlaps the new pair nor
  lies below it is kept and the loop goes on; entries before the first overlapping one
  are filtered.
\<close>

lemma offset_loop_Nil: "offset_loop sc tc 0 [] tr = ([], False, tr)"
  by (simp add: offset_loop.simps [of sc tc 0 "[]" tr])

lemma offset_loop_shift:
  "offset_loop sc tc (length done) (done @ rest) tr =
     (case offset_loop sc tc 0 rest tr of (arr, t, n) \<Rightarrow> (done @ arr, t, n))"
proof (induction rest arbitrary: "done")
  case Nil
  show ?case
    by (simp add: offset_loop_Nil offset_loop.simps [of sc tc "length done" "done" tr])
next
  case (Cons e rest)
  consider (ov) "overlapping sc tc e"
    | (del) "\<not> overlapping sc tc e" "superseded sc tc e"
    | (keep) "\<not> overlapping sc tc e" "\<not> superseded sc tc e"
    by blast
  then show ?case
  proof cases
    case ov
    then show ?thesis
      by (simp add: offset_loop.simps [of sc tc "length done" "done @ e # rest" tr]
          offset_loop.simps [of sc tc 0 "e # rest" tr] Let_def overlapping_def)
  next
    case del
    have l: "offset_loop sc tc (length done) (done @ e # rest) tr
        = offset_loop sc tc (length done) (done @ rest) tr"
      using del
      by (simp add: offset_loop.simps [of sc tc "length done" "done @ e # rest" tr]
          Let_def overlapping_def superseded_def)
    have r: "offset_loop sc tc 0 (e # rest) tr = offset_loop sc tc 0 rest tr"
      using del
      by (simp add: offset_loop.simps [of sc tc 0 "e # rest" tr]
          Let_def overlapping_def superseded_def)
    show ?thesis by (simp only: l r Cons.IH)
  next
    case keep
    have l: "offset_loop sc tc (length done) (done @ e # rest) tr
        = offset_loop sc tc (length (done @ [e])) ((done @ [e]) @ rest) tr"
      using keep
      by (auto simp: offset_loop.simps [of sc tc "length done" "done @ e # rest" tr]
          Let_def overlapping_def superseded_def)
    have r: "offset_loop sc tc 0 (e # rest) tr
        = offset_loop sc tc (length [e]) ([e] @ rest) tr"
      using keep
      by (auto simp: offset_loop.simps [of sc tc 0 "e # rest" tr]
          Let_def overlapping_def superseded_def)
    show ?thesis
      by (simp only: l r Cons.IH) (simp split: prod.splits)
  qed
qed

lemma offset_loop_Cons:
  "offset_loop sc tc 0 (e # rest) tr =
     (if overlapping sc tc e then
        (if \<bar>tc - sc\<bar> \<ge> \<bar>ofs_tar_cur e - ofs_src_cur e\<bar> then (e # rest, True, tr + 1)
         else if \<not> ofs_trans e then (e\<lparr>ofs_trans := True\<rparr> # rest, False, tr + 1)
         else (e # rest, False, tr))
      else if superseded sc tc e then offset_loop sc tc 0 rest tr
      else (case offset_loop sc tc 0 rest tr of (arr, t, n) \<Rightarrow> (e # arr, t, n)))"
proof -
  have "offset_loop sc tc (Suc 0) (e # rest) tr
      = (case offset_loop sc tc 0 rest tr of (arr, t, n) \<Rightarrow> (e # arr, t, n))"
    using offset_loop_shift [of sc tc "[e]" rest tr] by simp
  then show ?thesis
    unfolding overlapping_def superseded_def
    by (subst offset_loop.simps) (auto simp: Let_def)
qed

lemma offset_loop_prefix:
  "\<forall>x\<in>set pre. \<not> overlapping sc tc x \<Longrightarrow>
   offset_loop sc tc 0 (pre @ rest) tr =
     (case offset_loop sc tc 0 rest tr of
        (arr, t, n) \<Rightarrow> (filter (\<lambda>x. \<not> superseded sc tc x) pre @ arr, t, n))"
proof (induction pre)
  case Nil
  show ?case by simp
next
  case (Cons x pre)
  then show ?case
    by (simp add: offset_loop_Cons split: prod.splits)
qed

text \<open>
  Claim C7, as amended.  In a matching step the history is scanned up to the first
  overlapping entry \<open>e\<close>.  The new pair is a transposition exactly when there is such an
  entry and the gap of the new pair is at least the gap of \<open>e\<close>; then the counter is
  incremented.  Otherwise the counter is incremented only when the flag of \<open>e\<close> is not
  set yet, and the flag is set.  Of the entries before \<open>e\<close>, those entirely below the
  new pair are removed; \<open>e\<close> and the entries after it stay, whether below or not.
\<close>

theorem match_step_history:
  assumes "offset_arr st = pre @ rest"
    and "\<forall>x\<in>set pre. \<not> overlapping (src_cur st) (tar_cur st) x"
    and "rest = [] \<or> overlapping (src_cur st) (tar_cur st) (hd rest)"
  shows "match_step st =
     (case rest of
        [] \<Rightarrow>
          st\<lparr>local_cs := local_cs st + 1,
             offset_arr := filter (\<lambda>x. \<not> superseded (src_cur st) (tar_cur st) x) pre @
               [\<lparr>ofs_src_cur = src_cur st, ofs_tar_cur = tar_cur st, ofs_trans = False\<rparr>]\<rparr>
      | e # post \<Rightarrow>
          (let is_trans = (\<bar>tar_cur st - src_cur st\<bar> \<ge> \<bar>ofs_tar_cur e - ofs_src_cur e\<bar>) in
           st\<lparr>local_cs := local_cs st + 1,
              trans := (if is_trans \<or> \<not> ofs_trans e then trans st + 1 else trans st),
              offset_arr := filter (\<lambda>x. \<not> superseded (src_cur st) (tar_cur st) x) pre @
                (if \<not> is_trans \<and> \<not> ofs_trans e then e\<lparr>ofs_trans := True\<rparr> else e) # post @
                [\<lparr>ofs_src_cur = src_cur st, ofs_tar_cur = tar_cur st,
                  ofs_trans = is_trans\<rparr>]\<rparr>))"
proof (cases rest)
  case Nil
  with assms show ?thesis
    by (simp add: match_step_def offset_loop_prefix [where rest = "[]", simplified] offset_loop_Nil)
next
  case (Cons e post)
  with assms(3) have "overlapping (src_cur st) (tar_cur st) e" by simp
  with assms(1,2) Cons show ?thesis
    by (simp add: match_step_def offset_loop_prefix offset_loop_Cons Let_def)
qed

lemma after_steps_aba_caca:
  "after_steps 5 5 0 ''aba'' ''caca'' init_state =
     Some \<lparr>src_cur = 2, tar_cur = 3, lcss = 2, local_cs = 0, trans = 1,
       offset_arr = [\<lparr>ofs_src_cur = 0, ofs_tar_cur = 1, ofs_trans = False\<rparr>,
                     \<lparr>ofs_src_cur = 2, ofs_tar_cur = 1, ofs_trans = True\<rparr>]\<rparr>"
  by code_simp

text \<open>
  The sixth iteration of \<open>aba\<close> against \<open>caca\<close> is a matching step: the entry
  \<open>(0, 1)\<close> is below the new pair \<open>(2, 3)\<close> and is removed, the entry \<open>(2, 1)\<close>
  overlaps it, and the new pair is a transposition.
\<close>

theorem match_step_history_witness:
  "after_steps 5 5 0 ''aba'' ''caca'' init_state =
     Some \<lparr>src_cur = 2, tar_cur = 3, lcss = 2, local_cs = 0, trans = 1,
       offset_arr = [\<lparr>ofs_src_cur = 0, ofs_tar_cur = 1, ofs_trans = False\<rparr>,
                     \<lparr>ofs_src_cur = 2, ofs_tar_cur = 1, ofs_trans = True\<rparr>]\<rparr> \<and>
   \<not> overlapping 2 3 \<lparr>ofs_src_cur = 0, ofs_tar_cur = 1, ofs_trans = False\<rparr> \<and>
   overlapping 2 3 \<lparr>ofs_src_cur = 2, ofs_tar_cur = 1, ofs_trans = True\<rparr> \<and>
   match_step \<lparr>src_cur = 2, tar_cur = 3, lcss = 2, local_cs = 0, trans = 1,
       offset_arr = [\<lparr>ofs_src_cur = 0, ofs_tar_cur = 1, ofs_trans = False\<rparr>,
                     \<lparr>ofs_src_cur = 2, ofs_tar_cur = 1, ofs_trans = True\<rparr>]\<rparr> =
     \<lparr>src_cur = 2, tar_cur = 3, lcss = 2, local_cs = 1, trans = 2,
       offset_arr = [\<lparr>ofs_src_cur = 2, ofs_tar_cur = 1, ofs_trans = True\<rparr>,
                     \<lparr>ofs_src_cur = 2, ofs_tar_cur = 3, ofs_trans = True\<rparr>]\<rparr>"
  using match_step_history [of
      "\<lparr>src_cur = 2, tar_cur = 3, lcss = 2, local_cs = 0, trans = 1,
        offset_arr = [\<lparr>ofs_src_cur = 0, ofs_tar_cur = 1, ofs_trans = False\<rparr>,
                      \<lparr>ofs_src_cur = 2, ofs_tar_cur = 1, ofs_trans = True\<rparr>]\<rparr>"
      "[\<lparr>ofs_src_cur = 0, ofs_tar_cur = 1, ofs_trans = False\<rparr>]"
      "[\<lparr>ofs_src_cur = 2, ofs_tar_cur = 1, ofs_trans = True\<rparr>]"]
    after_steps_aba_caca
  by (simp add: overlapping_def superseded_def)

text \<open>The states of \<open>after_steps\<close> are states of the scan loop.\<close>

lemma after_steps_loop:
  "after_steps n mo md src tar st = Some st' \<Longrightarrow>
   sift4_loop mo md src tar st = sift4_loop mo md src tar st'"
proof (induction n arbitrary: st)
  case 0
  then show ?case by simp
next
  case (Suc n)
  then show ?case
    by (subst sift4_loop.simps) (auto split: if_splits sum.splits outcome.splits)
qed

text \<open>
  Claim C7, as stated, fails.  Comparing \<open>ba\<close> with \<open>aba\<close>, the fourth iteration is a
  matching step for the pair \<open>(1, 2)\<close> with the entry \<open>(1, 0)\<close> in the history.  The entry
  is entirely below the new pair (\<open>1 > 0\<close> and \<open>2 > 1\<close>), and it is still in the history
  after the step: it overlaps the new pair (\<open>1 \<le> 1\<close>), and the loop tests that first.
\<close>

theorem history_entry_below_kept:
  "after_steps 3 5 0 ''ba'' ''aba'' init_state =
     Some \<lparr>src_cur = 1, tar_cur = 2, lcss = 1, local_cs = 0, trans = 0,
           offset_arr = [\<lparr>ofs_src_cur = 1, ofs_tar_cur = 0, ofs_trans = False\<rparr>]\<rparr> \<and>
   py_eq_at ''ba'' 1 ''aba'' 2 = Inr True \<and>
   superseded 1 2 \<lparr>ofs_src_cur = 1, ofs_tar_cur = 0, ofs_trans = False\<rparr> \<and>
   \<lparr>ofs_src_cur = 1, ofs_tar_cur = 0, ofs_trans = False\<rparr> \<in>
     set (offset_arr (match_step \<lparr>src_cur = 1, tar_cur = 2, lcss = 1, local_cs = 0, trans = 0,
           offset_arr = [\<lparr>ofs_src_cur = 1, ofs_tar_cur = 0, ofs_trans = False\<rparr>]\<rparr>))"
  by code_simp

subsection \<open>The bound on the distance\<close>

text \<open>
  The early exit returns the provisional distance
  \<open>max(src_cur, tar_cur) - lcss + trans\<close>, and only when it has reached the bound.
\<close>

lemma end_of_step_Return:
  "end_of_step K src tar st = Return v \<longleftrightarrow>
     K \<noteq> 0 \<and> K \<le> v \<and> v = max (src_cur st) (tar_cur st) - lcss st + trans st"
  by (auto simp: end_of_step_def)

text \<open>
  An iteration with a bound: an exception of the body is passed on; when the provisional
  distance after the body has reached the bound it is returned; below the bound the
  iteration ends as it does without a bound.
\<close>

lemma scan_step_body_error:
  "step_body mo src tar st = Inl e \<Longrightarrow> scan_step mo md src tar st = Inl e"
  by (simp add: scan_step_def)

lemma scan_step_exit:
  "step_body mo src tar st = Inr st2 \<Longrightarrow> K \<noteq> 0 \<Longrightarrow> K \<le> temporary_distance st2 \<Longrightarrow>
   scan_step mo K src tar st = Inr (Return (temporary_distance st2))"
  by (simp add: scan_step_def end_of_step_def temporary_distance_def)

lemma scan_step_no_exit:
  "step_body mo src tar st = Inr st2 \<Longrightarrow> temporary_distance st2 < K \<Longrightarrow>
   \<exists>st1. scan_step mo K src tar st = Inr (Continue st1) \<and>
         scan_step mo 0 src tar st = Inr (Continue st1)"
  by (simp add: scan_step_def end_of_step_def temporary_distance_def)

text \<open>
  The bounded scan goes through the states of the scan without a bound.  It returns at
  the first iteration whose provisional distance has reached the bound; when there is
  none, it ends as the scan without a bound does.
\<close>

lemma sift4_loop_early_exit:
  assumes K: "K \<noteq> 0"
  shows "(sift4_loop mo K src tar st = sift4_loop mo 0 src tar st \<and>
          (\<forall>n s s2. after_steps n mo 0 src tar st = Some s \<longrightarrow>
             src_cur s < int (length src) \<and> tar_cur s < int (length tar) \<longrightarrow>
             step_body mo src tar s = Inr s2 \<longrightarrow> temporary_distance s2 < K)) \<or>
         (\<exists>n s s2. after_steps n mo K src tar st = Some s \<and>
             after_steps n mo 0 src tar st = Some s \<and>
             src_cur s < int (length src) \<and> tar_cur s < int (length tar) \<and>
             step_body mo src tar s = Inr s2 \<and> K \<le> temporary_distance s2 \<and>
             sift4_loop mo K src tar st = Inr (temporary_distance s2) \<and>
             (\<forall>m<n. \<forall>t t2. after_steps m mo 0 src tar st = Some t \<longrightarrow>
                step_body mo src tar t = Inr t2 \<longrightarrow> temporary_distance t2 < K))"
proof (induction mo "0::int" src tar st rule: sift4_loop.induct)
  case (1 mo src tar st)
  let ?same = "\<lambda>st. sift4_loop mo K src tar st = sift4_loop mo 0 src tar st \<and>
          (\<forall>n s s2. after_steps n mo 0 src tar st = Some s \<longrightarrow>
             src_cur s < int (length src) \<and> tar_cur s < int (length tar) \<longrightarrow>
             step_body mo src tar s = Inr s2 \<longrightarrow> temporary_distance s2 < K)"
  let ?exit = "\<lambda>st. \<exists>n s s2. after_steps n mo K src tar st = Some s \<and>
             after_steps n mo 0 src tar st = Some s \<and>
             src_cur s < int (length src) \<and> tar_cur s < int (length tar) \<and>
             step_body mo src tar s = Inr s2 \<and> K \<le> temporary_distance s2 \<and>
             sift4_loop mo K src tar st = Inr (temporary_distance s2) \<and>
             (\<forall>m<n. \<forall>t t2. after_steps m mo 0 src tar st = Some t \<longrightarrow>
                step_body mo src tar t = Inr t2 \<longrightarrow> temporary_distance t2 < K)"
  let ?inside = "src_cur st < int (length src) \<and> tar_cur st < int (length tar)"
  show ?case
  proof (cases ?inside)
    case False
    have eq: "sift4_loop mo K src tar st = sift4_loop mo 0 src tar st"
      using False
      by (auto simp: sift4_loop.simps [of mo K src tar st] sift4_loop.simps [of mo 0 src tar st])
    have "temporary_distance s2 < K"
      if "after_steps n mo 0 src tar st = Some s"
        "src_cur s < int (length src) \<and> tar_cur s < int (length tar)" for n s s2
      using that False by (cases n) auto
    with eq show ?thesis by blast
  next
    case True
    show ?thesis
    proof (cases "step_body mo src tar st")
      case (Inl e)
      have eq: "sift4_loop mo K src tar st = sift4_loop mo 0 src tar st"
        using True scan_step_body_error [OF Inl]
        by (simp add: sift4_loop.simps [of mo K src tar st] sift4_loop.simps [of mo 0 src tar st])
      have "temporary_distance s2 < K"
        if "after_steps n mo 0 src tar st = Some s" "step_body mo src tar s = Inr s2" for n s s2
        using that Inl scan_step_body_error [OF Inl, of 0] True by (cases n) auto
      with eq show ?thesis by blast
    next
      case (Inr st2)
      show ?thesis
      proof (cases "K \<le> temporary_distance st2")
        case le: True
        from scan_step_exit [OF Inr K le] True
        have res: "sift4_loop mo K src tar st = Inr (temporary_distance st2)"
          by (simp add: sift4_loop.simps [of mo K src tar st])
        have "?exit st"
          apply (rule exI [where x = 0], rule exI [where x = st], rule exI [where x = st2])
          using res True Inr le by simp
        then show ?thesis ..
      next
        case lt: False
        then have lt': "temporary_distance st2 < K" by simp
        from scan_step_no_exit [OF Inr lt'] obtain st1 where
          stK: "scan_step mo K src tar st = Inr (Continue st1)" and
          st0: "scan_step mo 0 src tar st = Inr (Continue st1)" by blast
        have unf: "sift4_loop mo K src tar st = sift4_loop mo K src tar st1"
          "sift4_loop mo 0 src tar st = sift4_loop mo 0 src tar st1"
          using True stK st0
          by (simp_all add: sift4_loop.simps [of mo K src tar st] sift4_loop.simps [of mo 0 src tar st])
        have stp: "after_steps (Suc n) mo K src tar st = after_steps n mo K src tar st1"
          "after_steps (Suc n) mo 0 src tar st = after_steps n mo 0 src tar st1" for n
          using True stK st0 by simp_all
        from "1.hyps" [OF True st0 refl] have "?same st1 \<or> ?exit st1" .
        then show ?thesis
        proof
          assume same: "?same st1"
          have "temporary_distance s2 < K"
            if "after_steps n mo 0 src tar st = Some s" "step_body mo src tar s = Inr s2"
              "src_cur s < int (length src) \<and> tar_cur s < int (length tar)" for n s s2
          proof (cases n)
            case 0
            with that Inr lt' show ?thesis by simp
          next
            case (Suc n')
            with that stp(2) [of n'] have "after_steps n' mo 0 src tar st1 = Some s" by simp
            with same that show ?thesis by blast
          qed
          with same unf have "?same st" by simp
          then show ?thesis ..
        next
          assume "?exit st1"
          then obtain n s s2 where ex:
            "after_steps n mo K src tar st1 = Some s" "after_steps n mo 0 src tar st1 = Some s"
            "src_cur s < int (length src) \<and> tar_cur s < int (length tar)"
            "step_body mo src tar s = Inr s2" "K \<le> temporary_distance s2"
            "sift4_loop mo K src tar st1 = Inr (temporary_distance s2)"
            and before: "\<And>m t t2. m < n \<Longrightarrow> after_steps m mo 0 src tar st1 = Some t \<Longrightarrow>
                step_body mo src tar t = Inr t2 \<Longrightarrow> temporary_distance t2 < K"
            by blast
          have before': "temporary_distance t2 < K"
            if "m < Suc n" "after_steps m mo 0 src tar st = Some t" "step_body mo src tar t = Inr t2"
            for m t t2
          proof (cases m)
            case 0
            with that Inr lt' show ?thesis by simp
          next
            case (Suc m')
            with that stp(2) [of m'] have "m' < n" "after_steps m' mo 0 src tar st1 = Some t"
              by simp_all
            with before that show ?thesis by blast
          qed
          have reach: "after_steps (Suc n) mo K src tar st = Some s"
            "after_steps (Suc n) mo 0 src tar st = Some s"
            using ex stp by simp_all
          have res: "sift4_loop mo K src tar st = Inr (temporary_distance s2)"
            using unf ex by simp
          have "?exit st"
            apply (rule exI [where x = "Suc n"], rule exI [where x = s], rule exI [where x = s2])
            using reach res ex before' by blast
          then show ?thesis ..
        qed
      qed
    qed
  qed
qed

text \<open>A state at which the loop is left is the last one.\<close>

lemma after_steps_outside:
  "\<not> (src_cur st < int (length src) \<and> tar_cur st < int (length tar)) \<Longrightarrow>
   after_steps n mo md src tar st = Some s \<Longrightarrow> s = st"
  by (cases n) auto

text \<open>
  Claim C4.  With a bound \<open>K > 0\<close>, either no iteration of the scan ends with a
  provisional distance \<open>max(src_cur, tar_cur) - lcss + trans\<close> of \<open>K\<close> or more, and
  the result is that of the same scan without a bound; or the result is the provisional
  distance, at least \<open>K\<close>, at the end of the first iteration where it has reached
  \<open>K\<close>: the states are those of the scan without a bound, and all iterations before
  ended below \<open>K\<close>.
\<close>

theorem dist_abs_bounded:
  assumes "0 < K"
  shows "(dist_abs mo K src tar = dist_abs mo 0 src tar \<and>
          (\<forall>n s s2. after_steps n mo 0 src tar init_state = Some s \<longrightarrow>
             src_cur s < int (length src) \<and> tar_cur s < int (length tar) \<longrightarrow>
             step_body mo src tar s = Inr s2 \<longrightarrow>
             max (src_cur s2) (tar_cur s2) - lcss s2 + trans s2 < K)) \<or>
         (\<exists>n s s2. after_steps n mo K src tar init_state = Some s \<and>
             after_steps n mo 0 src tar init_state = Some s \<and>
             src_cur s < int (length src) \<and> tar_cur s < int (length tar) \<and>
             step_body mo src tar s = Inr s2 \<and>
             K \<le> max (src_cur s2) (tar_cur s2) - lcss s2 + trans s2 \<and>
             dist_abs mo K src tar = Inr (max (src_cur s2) (tar_cur s2) - lcss s2 + trans s2) \<and>
             (\<forall>m<n. \<forall>t t2. after_steps m mo 0 src tar init_state = Some t \<longrightarrow>
                step_body mo src tar t = Inr t2 \<longrightarrow>
                max (src_cur t2) (tar_cur t2) - lcss t2 + trans t2 < K))"
proof (cases "src = [] \<or> tar = []")
  case True
  then have out: "\<not> (src_cur init_state < int (length src) \<and>
      tar_cur init_state < int (length tar))"
    by (auto simp: init_state_def)
  have "max (src_cur s2) (tar_cur s2) - lcss s2 + trans s2 < K"
    if "after_steps n mo 0 src tar init_state = Some s"
      "src_cur s < int (length src) \<and> tar_cur s < int (length tar)" for n s s2
    using after_steps_outside [OF out that(1)] that(2) out by simp
  moreover from True have "dist_abs mo K src tar = dist_abs mo 0 src tar"
    by (auto simp: dist_abs_def)
  ultimately show ?thesis by blast
next
  case False
  then have d: "dist_abs mo md src tar = sift4_loop mo md src tar init_state" for md
    by (simp add: dist_abs_def)
  from assms have "K \<noteq> 0" by simp
  from sift4_loop_early_exit [OF this, of mo src tar init_state, unfolded temporary_distance_def]
  show ?thesis unfolding d .
qed

text \<open>
  With the bound 2, \<open>aluminum\<close> against \<open>Catalan\<close> is left early with the provisional
  distance 2, where the scan without a bound gives 5.
\<close>

theorem dist_abs_bounded_witness:
  "(0::int) < 2 \<and>
   dist_abs 5 2 ''aluminum'' ''Catalan'' = Inr 2 \<and>
   dist_abs 5 0 ''aluminum'' ''Catalan'' = Inr 5 \<and>
   (\<exists>n s s2. after_steps n 5 0 ''aluminum'' ''Catalan'' init_state = Some s \<and>
      step_body 5 ''aluminum'' ''Catalan'' s = Inr s2 \<and>
      2 \<le> max (src_cur s2) (tar_cur s2) - lcss s2 + trans s2 \<and>
      dist_abs 5 2 ''aluminum'' ''Catalan'' =
        Inr (max (src_cur s2) (tar_cur s2) - lcss s2 + trans s2))"
proof -
  have a: "dist_abs 5 2 ''aluminum'' ''Catalan'' = Inr 2" by code_simp
  have b: "dist_abs 5 0 ''aluminum'' ''Catalan'' = Inr 5" by code_simp
  have c: "(0::int) < 2" by simp
  from a b have ne: "dist_abs 5 2 ''aluminum'' ''Catalan'' \<noteq> dist_abs 5 0 ''aluminum'' ''Catalan''"
    by simp
  from dist_abs_bounded [OF c, of 5 "''aluminum''" "''Catalan''"] ne
  have "\<exists>n s s2. after_steps n 5 0 ''aluminum'' ''Catalan'' init_state = Some s \<and>
      step_body 5 ''aluminum'' ''Catalan'' s = Inr s2 \<and>
      2 \<le> max (src_cur s2) (tar_cur s2) - lcss s2 + trans s2 \<and>
      dist_abs 5 2 ''aluminum'' ''Catalan'' =
        Inr (max (src_cur s2) (tar_cur s2) - lcss s2 + trans s2)"
    by blast
  with a b c show ?thesis by blast
qed

subsection \<open>The distance of a string from itself\<close>

text \<open>
  Comparing a string with itself, every iteration is a matching step at equal cursors.
  It finds no overlapping entry, removes the whole history and counts no transposition.
\<close>

lemma self_step:
  assumes "0 \<le> i" "i < int (length s)" "src_cur st = i" "tar_cur st = i"
    "lcss st + local_cs st = i" "trans st = 0"
    "\<forall>e\<in>set (offset_arr st). ofs_src_cur e < i \<and> ofs_tar_cur e < i"
  shows "\<exists>st'. scan_step mo 0 s s st = Inr (Continue st') \<and>
     src_cur st' = i + 1 \<and> tar_cur st' = i + 1 \<and> lcss st' + local_cs st' = i + 1 \<and>
     trans st' = 0 \<and> (\<forall>e\<in>set (offset_arr st'). ofs_src_cur e < i + 1 \<and> ofs_tar_cur e < i + 1)"
proof -
  have eq: "py_eq_at s i s i = Inr True"
    using assms by (simp add: py_eq_at_inside)
  have no: "\<forall>x\<in>set (offset_arr st). \<not> overlapping i i x"
    using assms by (auto simp: overlapping_def)
  have all: "filter (\<lambda>x. \<not> superseded i i x) (offset_arr st) = []"
    using assms by (auto simp: superseded_def filter_empty_conv)
  have ol: "offset_loop i i 0 (offset_arr st) 0 = ([], False, 0)"
    using offset_loop_prefix [OF no, of "[]" 0] all by (simp add: offset_loop_Nil)
  have ms: "match_step st = st\<lparr>local_cs := local_cs st + 1,
      offset_arr := [\<lparr>ofs_src_cur = i, ofs_tar_cur = i, ofs_trans = False\<rparr>]\<rparr>"
    using assms by (simp add: match_step_def ol)
  show ?thesis
    using assms by (simp add: scan_step_def step_body_def eq ms end_of_step_def)
qed

lemma self_loop:
  "t = s \<Longrightarrow> 0 \<le> src_cur st \<Longrightarrow> src_cur st \<le> int (length s) \<Longrightarrow> tar_cur st = src_cur st \<Longrightarrow>
   lcss st + local_cs st = src_cur st \<Longrightarrow> trans st = 0 \<Longrightarrow>
   \<forall>e\<in>set (offset_arr st). ofs_src_cur e < src_cur st \<and> ofs_tar_cur e < src_cur st \<Longrightarrow>
   sift4_loop mo 0 s t st = Inr 0"
proof (induction mo "0::int" s t st rule: sift4_loop.induct)
  case (1 mo s t st)
  note [simp] = \<open>t = s\<close>
  show ?case
  proof (cases "src_cur st < int (length s)")
    case False
    with "1.prems" have "src_cur st = int (length s)" by simp
    with "1.prems" show ?thesis
      by (subst sift4_loop.simps) simp
  next
    case True
    with "1.prems" have inside: "src_cur st < int (length s) \<and> tar_cur st < int (length s)" by simp
    from self_step [of "src_cur st" s st mo] "1.prems" True
    obtain st' where st': "scan_step mo 0 s s st = Inr (Continue st')"
      "src_cur st' = src_cur st + 1" "tar_cur st' = src_cur st + 1"
      "lcss st' + local_cs st' = src_cur st + 1" "trans st' = 0"
      "\<forall>e\<in>set (offset_arr st'). ofs_src_cur e < src_cur st + 1 \<and> ofs_tar_cur e < src_cur st + 1"
      by auto
    have "sift4_loop mo 0 s s st' = Inr 0"
      using "1.hyps" [OF _ _ refl, of st'] inside st' "1.prems" True by simp
    with inside st'(1) show ?thesis
      by (simp add: sift4_loop.simps [of mo 0 s s st])
  qed
qed

text \<open>
  Claim C5.  Without a bound, the distance of a string from itself is 0, for every
  \<open>max_offset\<close>.
\<close>

theorem dist_abs_self: "dist_abs mo 0 s s = Inr 0"
  using self_loop [of s s init_state mo] by (simp add: dist_abs_def init_state_def)

subsection \<open>The examples of the documentation\<close>

text \<open>
  Claim C2.  With the default parameters the code returns 1 for \<open>cat\<close> and \<open>hat\<close>,
  2 for \<open>Niall\<close> and \<open>Neil\<close>, 2 for \<open>ATCG\<close> and \<open>TAGC\<close>, as the documentation of
  \<open>dist_abs\<close> says, and 5 for \<open>aluminum\<close> and \<open>Catalan\<close>, where the documentation
  says 3.
\<close>

theorem doctest_values:
  "dist_abs 5 0 ''cat'' ''hat'' = Inr 1 \<and>
   dist_abs 5 0 ''Niall'' ''Neil'' = Inr 2 \<and>
   dist_abs 5 0 ''aluminum'' ''Catalan'' = Inr 5 \<and>
   dist_abs 5 0 ''ATCG'' ''TAGC'' = Inr 2"
  by code_simp

section \<open>Properties of the formula layer\<close>

text \<open>
  Claim C1.  Whenever the divisor \<open>(a + b)(a + c)(b + d)(c + d)\<close> of \<open>Doolittle.sim\<close>
  is zero, as it is for two empty strings, the call raises \<open>ZeroDivisionError\<close>: it
  returns neither a NaN nor an infinity.
\<close>

theorem Doolittle_sim_zero_denominator:
  assumes "engine src tar = k"
    and "(intersection_card k + src_only_card k) * (intersection_card k + tar_only_card k) *
         (src_only_card k + total_complement_card k) *
         (tar_only_card k + total_complement_card k) = 0"
  shows "Doolittle_sim engine src tar = Inl ZeroDivisionError"
  using assms by (simp add: Doolittle_sim_def py_truediv_def Let_def)

text \<open>Two empty strings in a population of 784: \<open>a = b = c = 0\<close> and \<open>d = 784\<close>.\<close>

theorem Doolittle_sim_zero_denominator_witness:
  "(intersection_card (fixed_cards 0 0 0 784) + src_only_card (fixed_cards 0 0 0 784)) *
   (intersection_card (fixed_cards 0 0 0 784) + tar_only_card (fixed_cards 0 0 0 784)) *
   (src_only_card (fixed_cards 0 0 0 784) + total_complement_card (fixed_cards 0 0 0 784)) *
   (tar_only_card (fixed_cards 0 0 0 784) + total_complement_card (fixed_cards 0 0 0 784)) = 0 \<and>
   Doolittle_sim (\<lambda>s t. fixed_cards 0 0 0 784) '''' '''' = Inl ZeroDivisionError"
  using Doolittle_sim_zero_denominator
    [of "\<lambda>s t. fixed_cards 0 0 0 784" "''''" "''''" "fixed_cards 0 0 0 784"]
  by (simp add: fixed_cards_def)

text \<open>
  Claim C9.  For two empty strings \<open>Dennis.sim_score\<close> returns \<open>0.0\<close>, whatever the
  engine would answer: the result is fixed before the strings are tokenized.
\<close>

theorem Dennis_sim_score_empty: "Dennis_sim_score engine [] [] = Inr (PyFloat 0)"
  by (simp add: Dennis_sim_score_def)

text \<open>
  Claim C8.  When \<open>\<phi>\<close> is negative and \<open>|N| + \<phi>\<close> is positive, the radicand
  \<open>\<phi> / (|N| + \<phi>)\<close> is negative and \<open>PearsonIII.corr\<close> returns a complex number with
  a non-zero imaginary part, not a float.
\<close>

theorem PearsonIII_corr_negative_phi:
  assumes "super_corr src tar = Inr phi" and "phi < 0"
    and "0 < population_unique_card (engine src tar) + phi"
  shows "PearsonIII_corr super_corr engine src tar =
           Inr (PyComplex (Complex 0 (sqrt (- phi / (population_unique_card (engine src tar) + phi)))))"
proof -
  from assms have "phi / (population_unique_card (engine src tar) + phi) < 0"
    by (simp add: divide_neg_pos)
  with assms show ?thesis
    by (simp add: PearsonIII_corr_def py_truediv_def py_pow_half_def)
qed

text \<open>
  Two strings with four tokens each, none in common, in a population of 784:
  \<open>\<phi> = - 1 / 195\<close>.
\<close>

lemma sqrt_9734400: "sqrt 9734400 = 3120"
  by (rule real_sqrt_unique) simp_all

lemma PearsonPhi_corr_disjoint:
  "PearsonPhi_corr (\<lambda>s t. fixed_cards 0 4 4 776) src tar = Inr (- 1 / 195)"
  by (simp add: PearsonPhi_corr_def fixed_cards_def py_truediv_def sqrt_9734400)

theorem PearsonIII_corr_negative_phi_witness:
  "PearsonPhi_corr (\<lambda>s t. fixed_cards 0 4 4 776) ''cat'' ''dog'' = Inr (- 1 / 195) \<and>
   (- 1 / 195 :: real) < 0 \<and>
   0 < population_unique_card (fixed_cards 0 4 4 776) + (- 1 / 195) \<and>
   PearsonIII_corr (PearsonPhi_corr (\<lambda>s t. fixed_cards 0 4 4 776)) (\<lambda>s t. fixed_cards 0 4 4 776)
      ''cat'' ''dog'' = Inr (PyComplex (Complex 0 (sqrt (1 / 152879))))"
proof -
  have 1: "PearsonPhi_corr (\<lambda>s t. fixed_cards 0 4 4 776) ''cat'' ''dog'' = Inr (- 1 / 195)"
    by (rule PearsonPhi_corr_disjoint)
  have 2: "(- 1 / 195 :: real) < 0" by simp
  have 3: "0 < population_unique_card (fixed_cards 0 4 4 776) + (- 1 / 195)"
    by (simp add: fixed_cards_def)
  from PearsonIII_corr_negative_phi [of "PearsonPhi_corr (\<lambda>s t. fixed_cards 0 4 4 776)"
      "''cat''" "''dog''" "- 1 / 195" "\<lambda>s t. fixed_cards 0 4 4 776", OF 1 2 3]
  show ?thesis using 1 2 3 by (simp add: fixed_cards_def)
qed

text \<open>
  Claim C10.  For cardinalities \<open>a\<close>, \<open>b\<close>, \<open>c\<close> that are not negative,
  \<open>TullossS.sim\<close> raises nothing and returns a float in the interval \<open>(0, 1]\<close>.
\<close>

theorem TullossS_sim_range:
  assumes "0 \<le> intersection_card (engine src tar)"
    and "0 \<le> src_only_card (engine src tar)"
    and "0 \<le> tar_only_card (engine src tar)"
  shows "\<exists>r. TullossS_sim engine src tar = Inr (PyFloat r) \<and> 0 < r \<and> r \<le> 1"
proof -
  define a where "a = intersection_card (engine src tar)"
  define b where "b = src_only_card (engine src tar)"
  define c where "c = tar_only_card (engine src tar)"
  define q where "q = min b c / (a + 1)"
  define l where "l = ln (2 + q) / ln 2"
  from assms have a: "a + 1 \<noteq> 0" and q: "0 \<le> q"
    by (simp_all add: a_def b_def c_def q_def)
  from a have div: "py_truediv (min b c) (a + 1) = Inr q"
    by (simp add: py_truediv_def q_def)
  from q have lg: "py_log (2 + q) 2 = Inr l"
    by (simp add: py_log_def l_def)
  from q have "ln 2 \<le> ln (2 + q)" by simp
  then have l: "1 \<le> l" by (simp add: l_def pos_le_divide_eq)
  then have s: "1 \<le> sqrt l" by simp
  from l s have res: "py_div_num 1 (py_pow_half l) = Inr (PyFloat (1 / sqrt l))"
    by (simp add: py_div_num_def py_pow_half_def)
  have "TullossS_sim engine src tar = Inr (PyFloat (1 / sqrt l))"
    using div lg res by (simp add: TullossS_sim_def Let_def a_def b_def c_def)
  moreover from s have "0 < 1 / sqrt l \<and> 1 / sqrt l \<le> 1" by simp
  ultimately show ?thesis by blast
qed

theorem TullossS_sim_range_witness:
  "0 \<le> intersection_card (fixed_cards 2 2 2 778) \<and> 0 \<le> src_only_card (fixed_cards 2 2 2 778) \<and>
   0 \<le> tar_only_card (fixed_cards 2 2 2 778) \<and>
   (\<exists>r. TullossS_sim (\<lambda>s t. fixed_cards 2 2 2 778) ''cat'' ''hat'' = Inr (PyFloat r) \<and> 0 < r \<and> r \<le> 1)"
  using TullossS_sim_range [of "\<lambda>s t. fixed_cards 2 2 2 778" "''cat''" "''hat''"]
  by (simp add: fixed_cards_def)

end
